theory Spec2Isabelle
  imports Complex_Main "HOL-Library.Log_Nat"
begin

section \<open>JavaScript numbers\<close>

text \<open>
  The component computes with JavaScript numbers, which are IEEE 754 double-precision
  values. A number is modelled as a rational (\<open>Fin\<close>), one of the two infinities, or
  NaN. Every arithmetic operation computes the exact rational result and rounds it to
  the nearest double, ties to even, with gradual underflow and with overflow to an
  infinity (\<open>round64\<close>). A finite number that the program holds is a double
  (\<open>is_double\<close>: rounding leaves it unchanged); a property that depends on this
  assumes it. The sign of zero is not modelled.
\<close>

datatype jsnum = Fin rat | PInf | NInf | NaN

definition pow2 :: "int \<Rightarrow> rat" where
  "pow2 e = 2 powi e"

text \<open>The binary exponent of a positive number: the \<open>k\<close> with \<open>pow2 k \<le> a < pow2 (k + 1)\<close>.\<close>

definition ilog2 :: "rat \<Rightarrow> int" where
  "ilog2 a = (if 1 \<le> a then bitlen \<lfloor>a\<rfloor> - 1 else - bitlen (\<lceil>1 / a\<rceil> - 1))"

text \<open>The nearest integer, a tie going to the even one.\<close>

definition round_even :: "rat \<Rightarrow> int" where
  "round_even y =
     (let f = \<lfloor>y\<rfloor>; r = y - of_int f
      in if r < 1 / 2 then f else if 1 / 2 < r then f + 1 else if even f then f else f + 1)"

text \<open>
  The exponent of the last mantissa bit: 53 significant bits in the normal range, and
  \<open>- 1074\<close>, that of the smallest subnormal, below it.
\<close>

definition expo :: "rat \<Rightarrow> int" where
  "expo a = max (ilog2 a - 52) (- 1074)"

definition round_pos :: "rat \<Rightarrow> rat" where
  "round_pos a = of_int (round_even (a / pow2 (expo a))) * pow2 (expo a)"

definition round64 :: "rat \<Rightarrow> jsnum" where
  "round64 q =
     (if q = 0 then Fin 0
      else if 0 < q then (if pow2 1024 \<le> round_pos q then PInf else Fin (round_pos q))
      else (if pow2 1024 \<le> round_pos (- q) then NInf else Fin (- round_pos (- q))))"

definition is_double :: "rat \<Rightarrow> bool" where
  "is_double q = (round64 q = Fin q)"

fun js_sub :: "jsnum \<Rightarrow> jsnum \<Rightarrow> jsnum" where
  "js_sub NaN b = NaN"
| "js_sub a NaN = NaN"
| "js_sub (Fin a) (Fin b) = round64 (a - b)"
| "js_sub (Fin a) PInf = NInf"
| "js_sub (Fin a) NInf = PInf"
| "js_sub PInf PInf = NaN"
| "js_sub PInf b = PInf"
| "js_sub NInf NInf = NaN"
| "js_sub NInf b = NInf"

text \<open>\<open>Math.min\<close> and \<open>Math.max\<close> return NaN as soon as one argument is NaN.\<close>

fun js_min :: "jsnum \<Rightarrow> jsnum \<Rightarrow> jsnum" where
  "js_min NaN b = NaN"
| "js_min a NaN = NaN"
| "js_min NInf b = NInf"
| "js_min a NInf = NInf"
| "js_min PInf b = b"
| "js_min a PInf = a"
| "js_min (Fin a) (Fin b) = Fin (min a b)"

fun js_max :: "jsnum \<Rightarrow> jsnum \<Rightarrow> jsnum" where
  "js_max NaN b = NaN"
| "js_max a NaN = NaN"
| "js_max PInf b = PInf"
| "js_max a PInf = PInf"
| "js_max NInf b = b"
| "js_max a NInf = a"
| "js_max (Fin a) (Fin b) = Fin (max a b)"

fun js_div :: "jsnum \<Rightarrow> jsnum \<Rightarrow> jsnum" where
  "js_div NaN b = NaN"
| "js_div a NaN = NaN"
| "js_div (Fin a) (Fin b) =
     (if b = 0 then (if a = 0 then NaN else if 0 < a then PInf else NInf)
      else round64 (a / b))"
| "js_div (Fin a) b = Fin 0"
| "js_div PInf (Fin b) = (if 0 \<le> b then PInf else NInf)"
| "js_div NInf (Fin b) = (if 0 \<le> b then NInf else PInf)"
| "js_div a b = NaN"

fun js_mul :: "jsnum \<Rightarrow> jsnum \<Rightarrow> jsnum" where
  "js_mul NaN b = NaN"
| "js_mul a NaN = NaN"
| "js_mul (Fin a) (Fin b) = round64 (a * b)"
| "js_mul (Fin a) PInf = (if a = 0 then NaN else if 0 < a then PInf else NInf)"
| "js_mul (Fin a) NInf = (if a = 0 then NaN else if 0 < a then NInf else PInf)"
| "js_mul PInf (Fin b) = (if b = 0 then NaN else if 0 < b then PInf else NInf)"
| "js_mul NInf (Fin b) = (if b = 0 then NaN else if 0 < b then NInf else PInf)"
| "js_mul PInf PInf = PInf"
| "js_mul PInf NInf = NInf"
| "js_mul NInf PInf = NInf"
| "js_mul NInf NInf = PInf"

section \<open>The comparison slider\<close>

text \<open>
  The bounding box that \<open>getBoundingClientRect\<close> returns; only \<open>left\<close> and \<open>width\<close>
  are read. \<open>containerRef.current\<close> is \<open>null\<close> (\<open>None\<close>) until the container is
  mounted; afterwards it is the element, represented by its current bounding box.
\<close>

record rect =
  left :: jsnum
  width :: jsnum

text \<open>
  The two \<open>useState\<close> cells, and whether the document listeners of the effect are
  attached at the moment.
\<close>

record state =
  sliderPosition :: jsnum
  isDragging :: bool
  listening :: bool

definition initial :: state where
  "initial = \<lparr>sliderPosition = Fin 50, isDragging = False, listening = False\<rparr>"

definition handleMove :: "rect option \<Rightarrow> jsnum \<Rightarrow> state \<Rightarrow> state" where
  "handleMove containerRef clientX s =
     (case containerRef of
        None \<Rightarrow> s
      | Some r \<Rightarrow>
          let x = js_max (Fin 0) (js_min (js_sub clientX (left r)) (width r));
              percentage = js_mul (js_div x (width r)) (Fin 100)
          in s\<lparr>sliderPosition := percentage\<rparr>)"

definition onMouseDown :: "state \<Rightarrow> state" where
  "onMouseDown s = s\<lparr>isDragging := True\<rparr>"

definition onTouchStart :: "state \<Rightarrow> state" where
  "onTouchStart s = s\<lparr>isDragging := True\<rparr>"

definition handleMouseUp :: "state \<Rightarrow> state" where
  "handleMouseUp s = s\<lparr>isDragging := False\<rparr>"

definition handleMouseMove :: "rect option \<Rightarrow> jsnum \<Rightarrow> state \<Rightarrow> state" where
  "handleMouseMove containerRef clientX s =
     (if isDragging s then handleMove containerRef clientX s else s)"

text \<open>
  \<open>e.touches[0].clientX\<close>: the event carries the \<open>clientX\<close> of its touch points; with
  no touch point \<open>e.touches[0]\<close> is \<open>undefined\<close> and reading \<open>clientX\<close> throws.
\<close>

datatype error = TypeError

definition handleTouchMove :: "rect option \<Rightarrow> jsnum list \<Rightarrow> state \<Rightarrow> error + state" where
  "handleTouchMove containerRef touches s =
     (if isDragging s then
        (case touches of
           [] \<Rightarrow> Inl TypeError
         | t # ts \<Rightarrow> Inr (handleMove containerRef t s))
      else Inr s)"

definition handleClick :: "rect option \<Rightarrow> jsnum \<Rightarrow> state \<Rightarrow> state" where
  "handleClick containerRef clientX s = handleMove containerRef clientX s"

text \<open>
  The events the browser can deliver. \<open>MouseDown\<close> and \<open>TouchStart\<close> are presses on the
  slider handle, \<open>Click\<close> is a click on the container; the others are events on the
  document.
\<close>

datatype event =
    MouseDown
  | TouchStart
  | MouseUp
  | MouseMove jsnum
  | TouchEnd
  | TouchMove "jsnum list"
  | TouchCancel
  | Click jsnum

text \<open>
  An event runs the handler registered for it. The document handlers are registered
  only while \<open>listening\<close>; nothing is ever registered for \<open>touchcancel\<close>.
\<close>

fun dispatch :: "rect option \<Rightarrow> event \<Rightarrow> state \<Rightarrow> error + state" where
  "dispatch c MouseDown s = Inr (onMouseDown s)"
| "dispatch c TouchStart s = Inr (onTouchStart s)"
| "dispatch c MouseUp s = (if listening s then Inr (handleMouseUp s) else Inr s)"
| "dispatch c (MouseMove clientX) s =
     (if listening s then Inr (handleMouseMove c clientX s) else Inr s)"
| "dispatch c TouchEnd s = (if listening s then Inr (handleMouseUp s) else Inr s)"
| "dispatch c (TouchMove touches) s =
     (if listening s then handleTouchMove c touches s else Inr s)"
| "dispatch c TouchCancel s = Inr s"
| "dispatch c (Click clientX) s = Inr (handleClick c clientX s)"

text \<open>
  The effect depends on \<open>isDragging\<close>: after a render its cleanup removes the four
  document listeners and its body adds them again if \<open>isDragging\<close> holds.
\<close>

definition useEffect :: "state \<Rightarrow> state" where
  "useEffect s = s\<lparr>listening := isDragging s\<rparr>"

definition step :: "rect option \<Rightarrow> event \<Rightarrow> state \<Rightarrow> error + state" where
  "step c e s = (case dispatch c e s of Inl err \<Rightarrow> Inl err | Inr s' \<Rightarrow> Inr (useEffect s'))"

text \<open>
  A sequence of events, each with the container as it is when the event arrives (the
  geometry is read at that moment, never cached). An exception thrown by a handler
  leaves the state as it was, and the next event is handled as usual.
\<close>

fun run :: "(rect option \<times> event) list \<Rightarrow> state \<Rightarrow> state" where
  "run [] s = s"
| "run ((c, e) # es) s = (case step c e s of Inl err \<Rightarrow> run es s | Inr s' \<Rightarrow> run es s')"

subsection \<open>Rendering\<close>

text \<open>
  The two style attributes that depend on the position. Each is a template literal: a
  sequence of literal strings and of numbers that the runtime converts to strings.
\<close>

datatype part = Str string | Num jsnum

record style =
  clipPath :: "part list"
  handleLeft :: "part list"

definition render :: "state \<Rightarrow> style" where
  "render s =
     \<lparr>clipPath = [Str ''inset(0 '', Num (js_sub (Fin 100) (sliderPosition s)), Str ''% 0 0)''],
      handleLeft = [Num (sliderPosition s), Str ''%'']\<rparr>"

subsection \<open>The algorithm as the specification words it\<close>



text \<open>A number in the closed range from 0 to 100.\<close>

fun in_range :: "jsnum \<Rightarrow> bool" where
  "in_range (Fin q) = (0 \<le> q \<and> q \<le> 100)"
| "in_range p = False"

text \<open>A finite number that differs from an exact value by at most a tolerance.\<close>

fun close_to :: "rat \<Rightarrow> jsnum \<Rightarrow> rat \<Rightarrow> bool" where
  "close_to tol (Fin p) q = (\<bar>p - q\<bar> \<le> tol)"
| "close_to tol p q = False"

fun is_move :: "event \<Rightarrow> bool" where
  "is_move (MouseMove x) = True"
| "is_move (TouchMove ts) = True"
| "is_move e = False"

text \<open>
  Geometry and coordinates as a laid-out page supplies them: finite numbers, and a
  width that is not zero.
\<close>

fun finite_geometry :: "rect option \<Rightarrow> bool" where
  "finite_geometry None = True"
| "finite_geometry (Some r) =
     (case left r of
        Fin l \<Rightarrow> (case width r of Fin w \<Rightarrow> w \<noteq> 0 | PInf \<Rightarrow> False | NInf \<Rightarrow> False | NaN \<Rightarrow> False)
      | PInf \<Rightarrow> False | NInf \<Rightarrow> False | NaN \<Rightarrow> False)"

fun finite_event :: "event \<Rightarrow> bool" where
  "finite_event (MouseMove (Fin x)) = True"
| "finite_event (MouseMove x) = False"
| "finite_event (Click (Fin x)) = True"
| "finite_event (Click x) = False"
| "finite_event (TouchMove (Fin x # ts)) = True"
| "finite_event (TouchMove (x # ts)) = False"
| "finite_event e = True"

section \<open>Rounding to a double\<close>

subsection \<open>Powers of two\<close>

lemma pow2_pos [simp]: "0 < pow2 e"
  by (simp add: pow2_def)

lemma pow2_nonneg [simp]: "0 \<le> pow2 e"
  by (simp add: pow2_def)

lemma abs_pow2 [simp]: "\<bar>pow2 e\<bar> = pow2 e"
  by (simp add: pow2_def)

lemma pow2_nonzero [simp]: "pow2 e \<noteq> 0"
  by (simp add: pow2_def)

lemma pow2_add: "pow2 (m + n) = pow2 m * pow2 n"
  by (simp add: pow2_def power_int_add)

lemma pow2_diff: "pow2 (m - n) = pow2 m / pow2 n"
  by (simp add: pow2_def power_int_diff)

lemma pow2_0 [simp]: "pow2 0 = 1"
  by (simp add: pow2_def)

lemma pow2_mono: "m \<le> n \<Longrightarrow> pow2 m \<le> pow2 n"
  by (simp add: pow2_def power_int_increasing)

lemma pow2_strict_mono: "m < n \<Longrightarrow> pow2 m < pow2 n"
  by (simp add: pow2_def power_int_strict_increasing)

lemma pow2_less_cancel: "pow2 m < pow2 n \<Longrightarrow> m < n"
  using pow2_mono [of n m] by (cases "m < n") auto

lemma pow2_nat: "0 \<le> e \<Longrightarrow> pow2 e = of_int (2 ^ nat e)"
  by (simp add: pow2_def power_int_nonneg_exp)

lemma pow2_1 [simp]: "pow2 1 = 2"
  by (simp add: pow2_def)

lemma pow2_Suc: "pow2 (e + 1) = 2 * pow2 e"
  by (simp add: pow2_add)

subsection \<open>Rounding to an integer\<close>

lemma round_even_floor: "\<lfloor>y\<rfloor> \<le> round_even y" "round_even y \<le> \<lfloor>y\<rfloor> + 1"
  by (simp_all add: round_even_def Let_def)

lemma round_even_of_int [simp]: "round_even (of_int n) = n"
  by (simp add: round_even_def)

lemma round_even_error: "\<bar>of_int (round_even y) - y\<bar> \<le> 1 / 2"
proof -
  have "of_int \<lfloor>y\<rfloor> \<le> y" and "y < of_int \<lfloor>y\<rfloor> + 1"
    by linarith+
  then show ?thesis
    by (auto simp: round_even_def Let_def abs_le_iff)
qed

lemma round_even_nearest:
  assumes "\<bar>of_int n - y\<bar> < 1 / 2"
  shows "round_even y = n"
proof -
  have "\<bar>of_int (round_even y) - (of_int n :: rat)\<bar> < 1"
    using round_even_error [of y] assms by linarith
  then have "\<bar>(of_int (round_even y - n) :: rat)\<bar> < of_int 1" by simp
  then have "\<bar>round_even y - n\<bar> < 1"
    by (simp only: of_int_abs [symmetric] of_int_less_iff)
  then show ?thesis by simp
qed

lemma round_even_ge:
  assumes "of_int n \<le> y"
  shows "n \<le> round_even y"
proof -
  from assms have "n \<le> \<lfloor>y\<rfloor>" by (simp add: le_floor_iff)
  with round_even_floor(1) [of y] show ?thesis by simp
qed

lemma round_even_le:
  assumes "y \<le> of_int n"
  shows "round_even y \<le> n"
proof (cases "y = of_int n")
  case True
  then show ?thesis by simp
next
  case False
  with assms have "y < of_int n" by simp
  then have "\<lfloor>y\<rfloor> < n" by (simp add: floor_less_iff)
  with round_even_floor(2) [of y] show ?thesis by simp
qed

lemma round_even_mono:
  assumes "x \<le> y"
  shows "round_even x \<le> round_even y"
proof (cases "\<lfloor>x\<rfloor> = \<lfloor>y\<rfloor>")
  case True
  with assms show ?thesis
    by (auto simp: round_even_def Let_def)
next
  case False
  with assms have "\<lfloor>x\<rfloor> < \<lfloor>y\<rfloor>"
    using floor_mono [of x y] by simp
  with round_even_floor(2) [of x] round_even_floor(1) [of y] show ?thesis by simp
qed

subsection \<open>The binary exponent\<close>

lemma ilog2_bounds:
  assumes "0 < a"
  shows "pow2 (ilog2 a) \<le> a" and "a < pow2 (ilog2 a + 1)"
proof -
  have "pow2 (ilog2 a) \<le> a \<and> a < pow2 (ilog2 a + 1)"
  proof (cases "1 \<le> a")
    case True
    define n where "n = \<lfloor>a\<rfloor>"
    have n: "0 < n" using True by (simp add: n_def)
    have k: "ilog2 a = bitlen n - 1" using True by (simp add: ilog2_def n_def)
    from n have pos: "0 \<le> bitlen n - 1"
      using bitlen_eq_zero_iff [of n] bitlen_nonneg [of n] by simp
    from bitlen_bounds [OF n] have lo: "2 ^ nat (bitlen n - 1) \<le> n" and hi: "n < 2 ^ nat (bitlen n)"
      by simp_all
    have "pow2 (bitlen n - 1) = of_int (2 ^ nat (bitlen n - 1))"
      using pos by (rule pow2_nat)
    also have "\<dots> \<le> of_int n" using lo by (simp only: of_int_le_iff)
    also have "\<dots> \<le> a" by (simp add: n_def)
    finally have 1: "pow2 (ilog2 a) \<le> a" by (simp add: k)
    have "a < of_int (n + 1)" by (simp add: n_def) linarith
    also have "\<dots> \<le> of_int (2 ^ nat (bitlen n))"
    proof -
      from hi have "n + 1 \<le> 2 ^ nat (bitlen n)" by simp
      then show ?thesis by (simp only: of_int_le_iff)
    qed
    also have "\<dots> = pow2 (bitlen n)"
      using bitlen_nonneg [of n] by (simp add: pow2_nat)
    finally have "a < pow2 (ilog2 a + 1)" by (simp add: k)
    with 1 show ?thesis by simp
  next
    case False
    define n where "n = \<lceil>1 / a\<rceil> - 1"
    from False assms have "1 < 1 / a" by simp
    then have n: "0 < n" by (simp add: n_def less_ceiling_iff)
    have k: "ilog2 a = - bitlen n" using False by (simp add: ilog2_def n_def)
    from n have pos: "0 \<le> bitlen n - 1"
      using bitlen_eq_zero_iff [of n] bitlen_nonneg [of n] by simp
    from bitlen_bounds [OF n] have lo: "2 ^ nat (bitlen n - 1) \<le> n" and hi: "n < 2 ^ nat (bitlen n)"
      by simp_all
    have "1 / a \<le> of_int (n + 1)" by (simp add: n_def)
    also have "\<dots> \<le> of_int (2 ^ nat (bitlen n))"
    proof -
      from hi have "n + 1 \<le> 2 ^ nat (bitlen n)" by simp
      then show ?thesis by (simp only: of_int_le_iff)
    qed
    also have "\<dots> = pow2 (bitlen n)"
      using bitlen_nonneg [of n] by (simp add: pow2_nat)
    finally have "1 / a \<le> pow2 (bitlen n)" .
    then have "1 \<le> pow2 (bitlen n) * a"
      using assms by (simp add: field_simps)
    then have "1 / pow2 (bitlen n) \<le> a"
      by (simp add: field_simps)
    then have 1: "pow2 (ilog2 a) \<le> a"
      using pow2_diff [of 0 "bitlen n"] by (simp add: k)
    have "pow2 (bitlen n - 1) = of_int (2 ^ nat (bitlen n - 1))"
      using pos by (rule pow2_nat)
    also have "\<dots> \<le> of_int n" using lo by (simp only: of_int_le_iff)
    also have "of_int n < 1 / a" by (simp add: n_def) linarith
    finally have "pow2 (bitlen n - 1) * a < 1"
      using assms by (simp add: field_simps)
    then have "a < 1 / pow2 (bitlen n - 1)"
      by (simp add: field_simps)
    then have "a < pow2 (ilog2 a + 1)"
      using pow2_diff [of 0 "bitlen n - 1"] by (simp add: k)
    with 1 show ?thesis by simp
  qed
  then show "pow2 (ilog2 a) \<le> a" and "a < pow2 (ilog2 a + 1)" by simp_all
qed

lemma ilog2_unique:
  assumes "0 < a" and "pow2 k \<le> a" and "a < pow2 (k + 1)"
  shows "ilog2 a = k"
proof -
  from ilog2_bounds [OF assms(1)] assms(2,3)
  have "pow2 (ilog2 a) < pow2 (k + 1)" and "pow2 k < pow2 (ilog2 a + 1)"
    by simp_all
  then have "ilog2 a < k + 1" and "k < ilog2 a + 1"
    by (auto dest: pow2_less_cancel)
  then show ?thesis by simp
qed

lemma ilog2_mono:
  assumes "0 < a" and "a \<le> b"
  shows "ilog2 a \<le> ilog2 b"
proof -
  have "0 < b" using assms by simp
  from ilog2_bounds(1) [OF assms(1)] ilog2_bounds(2) [OF \<open>0 < b\<close>] assms(2)
  have "pow2 (ilog2 a) < pow2 (ilog2 b + 1)" by simp
  then have "ilog2 a < ilog2 b + 1" by (rule pow2_less_cancel)
  then show ?thesis by simp
qed

lemma expo_ge: "- 1074 \<le> expo a" and expo_ge_ilog2: "ilog2 a - 52 \<le> expo a"
  by (simp_all add: expo_def)

lemma round_pos_nonneg:
  assumes "0 < a"
  shows "0 \<le> round_pos a"
proof -
  have "of_int 0 \<le> a / pow2 (expo a)" using assms by simp
  then have "0 \<le> round_even (a / pow2 (expo a))" by (rule round_even_ge)
  then show ?thesis by (simp add: round_pos_def)
qed

lemma round_pos_error: "\<bar>round_pos a - a\<bar> \<le> pow2 (expo a) / 2"
proof -
  let ?p = "pow2 (expo a)"
  have "round_pos a - a = (of_int (round_even (a / ?p)) - a / ?p) * ?p"
    by (simp add: round_pos_def field_simps)
  then have "\<bar>round_pos a - a\<bar> = \<bar>of_int (round_even (a / ?p)) - a / ?p\<bar> * ?p"
    by (simp add: abs_mult)
  also have "\<dots> \<le> 1 / 2 * ?p"
    by (rule mult_right_mono [OF round_even_error]) simp
  finally show ?thesis by simp
qed

lemma round_pos_exact:
  assumes "a = of_int m * pow2 e" and "expo a \<le> e"
  shows "round_pos a = a"
proof -
  define p where "p = pow2 (expo a)"
  have p: "p \<noteq> 0" by (simp add: p_def)
  have "pow2 e = pow2 (e - expo a) * p"
    using pow2_add [of "e - expo a" "expo a"] by (simp add: p_def)
  also have "pow2 (e - expo a) = of_int (2 ^ nat (e - expo a))"
    using assms(2) by (simp add: pow2_nat)
  finally have "a = of_int (m * 2 ^ nat (e - expo a)) * p"
    by (simp add: assms(1) mult.assoc)
  then have "a / p = of_int (m * 2 ^ nat (e - expo a))"
    using p by (simp add: field_simps)
  then have "of_int (round_even (a / p)) = a / p"
    by (simp only: round_even_of_int)
  then show ?thesis using p by (simp add: round_pos_def p_def)
qed

lemma expo_le_mantissa:
  assumes "0 < a" and "a = of_int m * pow2 e" and "m < 2 ^ 53" and "- 1074 \<le> e"
  shows "expo a \<le> e"
proof -
  have "(of_int m :: rat) < of_int (2 ^ 53)"
    using assms(3) by (simp only: of_int_less_iff)
  then have "a < pow2 53 * pow2 e"
    using assms(2) by (simp add: pow2_nat)
  with ilog2_bounds(1) [OF assms(1)] have "pow2 (ilog2 a) < pow2 (53 + e)"
    by (simp add: pow2_add)
  then have "ilog2 a < 53 + e" by (rule pow2_less_cancel)
  with assms(4) show ?thesis by (simp add: expo_def)
qed

lemma round_pos_mono:
  assumes "0 < a" and "a \<le> b"
  shows "round_pos a \<le> round_pos b"
proof -
  have b: "0 < b" using assms by simp
  have k: "ilog2 a \<le> ilog2 b" using assms by (rule ilog2_mono)
  then have e: "expo a \<le> expo b" by (auto simp: expo_def)
  show ?thesis
  proof (cases "expo a = expo b")
    case True
    have "a / pow2 (expo b) \<le> b / pow2 (expo b)"
      using assms(2) by (simp add: divide_right_mono)
    then have "round_even (a / pow2 (expo b)) \<le> round_even (b / pow2 (expo b))"
      by (rule round_even_mono)
    then have "(of_int (round_even (a / pow2 (expo b))) :: rat)
        \<le> of_int (round_even (b / pow2 (expo b)))"
      by (simp only: of_int_le_iff)
    then show ?thesis
      by (simp add: round_pos_def True)
  next
    case False
    with e have lt: "expo a < expo b" by simp
    with expo_ge [of a] have eb: "expo b = ilog2 b - 52" by (auto simp: expo_def)
    from lt eb expo_ge_ilog2 [of a] have kk: "ilog2 a + 1 \<le> ilog2 b" by simp
    have "pow2 (ilog2 b) = pow2 52 * pow2 (expo b)"
      using pow2_add [of 52 "expo b"] by (simp add: eb)
    with ilog2_bounds(1) [OF b] have "of_int (2 ^ 52) \<le> b / pow2 (expo b)"
      by (simp add: pow2_nat field_simps)
    then have "2 ^ 52 \<le> round_even (b / pow2 (expo b))" by (rule round_even_ge)
    then have "(of_int (2 ^ 52) :: rat) \<le> of_int (round_even (b / pow2 (expo b)))"
      by (simp only: of_int_le_iff)
    then have "of_int (2 ^ 52) * pow2 (expo b) \<le> round_pos b"
      by (simp add: round_pos_def)
    then have hi: "pow2 (ilog2 b) \<le> round_pos b"
      using \<open>pow2 (ilog2 b) = pow2 52 * pow2 (expo b)\<close> by (simp add: pow2_nat)
    have d: "0 \<le> ilog2 b - expo a" using lt eb by simp
    have split: "pow2 (ilog2 b) = pow2 (ilog2 b - expo a) * pow2 (expo a)"
      using pow2_add [of "ilog2 b - expo a" "expo a"] by simp
    have "a < pow2 (ilog2 a + 1)" using assms(1) by (rule ilog2_bounds(2))
    also have "\<dots> \<le> pow2 (ilog2 b)" using kk by (rule pow2_mono)
    finally have "a / pow2 (expo a) \<le> pow2 (ilog2 b - expo a)"
      using split by (simp add: field_simps)
    then have "a / pow2 (expo a) \<le> of_int (2 ^ nat (ilog2 b - expo a))"
      using d by (simp add: pow2_nat)
    then have "round_even (a / pow2 (expo a)) \<le> 2 ^ nat (ilog2 b - expo a)"
      by (rule round_even_le)
    then have "(of_int (round_even (a / pow2 (expo a))) :: rat)
        \<le> of_int (2 ^ nat (ilog2 b - expo a))"
      by (simp only: of_int_le_iff)
    then have "round_pos a \<le> of_int (2 ^ nat (ilog2 b - expo a)) * pow2 (expo a)"
      by (simp add: round_pos_def)
    also have "\<dots> = pow2 (ilog2 b)"
      using d split by (simp add: pow2_nat)
    finally show ?thesis using hi by simp
  qed
qed


lemma round_pos_error_below:
  assumes "0 < a" and "a < pow2 (K + 1)" and "- 1074 \<le> K - 52"
  shows "\<bar>round_pos a - a\<bar> \<le> pow2 (K - 52) / 2"
proof -
  from ilog2_bounds(1) [OF assms(1)] assms(2) have "pow2 (ilog2 a) < pow2 (K + 1)" by simp
  then have "ilog2 a < K + 1" by (rule pow2_less_cancel)
  with assms(3) have "expo a \<le> K - 52" by (simp add: expo_def)
  then have "pow2 (expo a) \<le> pow2 (K - 52)" by (rule pow2_mono)
  with round_pos_error [of a] show ?thesis by simp
qed

subsection \<open>The rounding function\<close>

lemma round64_0 [simp]: "round64 0 = Fin 0"
  by (simp add: round64_def)

lemma round64_pos:
  assumes "0 < q"
  shows "round64 q = (if pow2 1024 \<le> round_pos q then PInf else Fin (round_pos q))"
  using assms by (simp add: round64_def)

lemma is_double_pos:
  assumes "is_double w" and "0 < w"
  shows "round_pos w = w" and "w < pow2 1024"
  using assms by (auto simp: is_double_def round64_pos split: if_splits)

lemma round64_exact:
  assumes "0 < a" and "a = of_int m * pow2 e" and "m < 2 ^ 53" and "- 1074 \<le> e"
    and "a < pow2 1024"
  shows "round64 a = Fin a"
proof -
  have "round_pos a = a"
    using assms(2) expo_le_mantissa [OF assms(1-4)] by (rule round_pos_exact)
  with assms(1,5) show ?thesis by (simp add: round64_pos)
qed

lemma round64_le_double:
  assumes "is_double w" and "0 < q" and "q \<le> w"
  shows "round64 q = Fin (round_pos q)" and "0 \<le> round_pos q" and "round_pos q \<le> w"
proof -
  have w: "0 < w" using assms by simp
  from round_pos_mono [OF assms(2,3)] is_double_pos [OF assms(1) w]
  show le: "round_pos q \<le> w" by simp
  with is_double_pos(2) [OF assms(1) w] show "round64 q = Fin (round_pos q)"
    using assms(2) by (simp add: round64_pos)
  show "0 \<le> round_pos q" using assms(2) by (rule round_pos_nonneg)
qed

lemma round64_ge_double:
  assumes "is_double w" and "0 < w" and "w \<le> q"
  shows "round64 q = PInf \<or> (round64 q = Fin (round_pos q) \<and> w \<le> round_pos q)"
proof -
  have q: "0 < q" using assms by simp
  from round_pos_mono [OF assms(2,3)] is_double_pos(1) [OF assms(1,2)]
  have "w \<le> round_pos q" by simp
  with q show ?thesis by (simp add: round64_pos)
qed

lemma round64_neg:
  assumes "q < 0"
  shows "round64 q = NInf \<or> (round64 q = Fin (- round_pos (- q)) \<and> - round_pos (- q) \<le> 0)"
  using assms round_pos_nonneg [of "- q"] by (simp add: round64_def)


section \<open>Properties\<close>

subsection \<open>The state machine\<close>

lemma useEffect_sync: "listening (useEffect s) = isDragging (useEffect s)"
  by (simp add: useEffect_def)

lemma step_sync: "step c e s = Inr s' \<Longrightarrow> listening s' = isDragging s'"
  by (auto simp: step_def useEffect_def split: sum.splits)

lemma run_sync: "listening s = isDragging s \<Longrightarrow> listening (run es s) = isDragging (run es s)"
proof (induction es arbitrary: s)
  case Nil
  then show ?case by simp
next
  case (Cons ce es)
  obtain c e where ce: "ce = (c, e)" by (cases ce)
  show ?case
  proof (cases "step c e s")
    case (Inl err)
    with Cons ce show ?thesis by simp
  next
    case (Inr s')
    then have "listening s' = isDragging s'" by (rule step_sync)
    with Cons.IH Inr ce show ?thesis by simp
  qed
qed

lemma run_initial_sync: "listening (run es initial) = isDragging (run es initial)"
  by (rule run_sync) (simp add: initial_def)

lemma run_append: "run (es @ fs) s = run fs (run es s)"
  by (induction es arbitrary: s) (auto split: sum.splits)



lemma idle_move_step:
  assumes "\<not> isDragging s" and "is_move e"
  shows "step c e s = Inr (s\<lparr>listening := False\<rparr>)"
  using assms
  by (cases e) (auto simp: step_def useEffect_def handleMouseMove_def handleTouchMove_def)

lemma idle_moves:
  assumes "\<not> isDragging s" and "list_all is_move (map snd ms)"
  shows "sliderPosition (run ms s) = sliderPosition s \<and> \<not> isDragging (run ms s)"
  using assms
proof (induction ms arbitrary: s)
  case Nil
  then show ?case by simp
next
  case (Cons ce ms)
  obtain c e where ce: "ce = (c, e)" by (cases ce)
  from Cons.prems ce have mv: "is_move e" and rest: "list_all is_move (map snd ms)"
    by simp_all
  have st: "step c e s = Inr (s\<lparr>listening := False\<rparr>)"
    using Cons.prems(1) mv by (rule idle_move_step)
  have "\<not> isDragging (s\<lparr>listening := False\<rparr>)" using Cons.prems(1) by simp
  from Cons.IH [OF this rest] st ce show ?case by simp
qed

lemma release_step:
  assumes "isDragging s" and "listening s" and "e = MouseUp \<or> e = TouchEnd"
  shows "step c e s = Inr (s\<lparr>isDragging := False, listening := False\<rparr>)"
  using assms by (auto simp: step_def useEffect_def handleMouseUp_def)

lemma null_container_position:
  "step None e s = Inr s' \<Longrightarrow> sliderPosition s' = sliderPosition s"
  by (cases e)
    (auto simp: step_def useEffect_def handleMove_def handleMouseMove_def handleTouchMove_def
      handleClick_def onMouseDown_def onTouchStart_def handleMouseUp_def
      split: if_splits list.splits)



subsection \<open>Doubles that the slider meets\<close>

lemma round64_int:
  assumes "0 \<le> m" and "m < 2 ^ 53"
  shows "round64 (of_int m) = Fin (of_int m)"
proof (cases "m = 0")
  case True
  then show ?thesis by simp
next
  case False
  with assms(1) have pos: "0 < (of_int m :: rat)" by simp
  have "(of_int m :: rat) < of_int (2 ^ 53)"
    using assms(2) by (simp only: of_int_less_iff)
  also have "\<dots> = pow2 53" by (simp add: pow2_nat)
  also have "\<dots> \<le> pow2 1024" by (rule pow2_mono) simp
  finally have "of_int m < pow2 1024" .
  with pos assms(2) show ?thesis
    by (intro round64_exact [where m = m and e = 0]) simp_all
qed

lemma round64_normal:
  assumes "0 < a" and "pow2 k \<le> a" and "a < pow2 (k + 1)" and "- 1022 \<le> k" and "k \<le> 1022"
  shows "round64 a = Fin (of_int (round_even (a / pow2 (k - 52))) * pow2 (k - 52))"
proof -
  have "ilog2 a = k" using assms(1-3) by (rule ilog2_unique)
  with assms(4) have e: "expo a = k - 52" by (simp add: expo_def)
  then have r: "round_pos a = of_int (round_even (a / pow2 (k - 52))) * pow2 (k - 52)"
    by (simp add: round_pos_def)
  have split: "pow2 (k + 1) = pow2 53 * pow2 (k - 52)"
    using pow2_add [of 53 "k - 52"] by (simp add: add.commute)
  with assms(3) have "a / pow2 (k - 52) \<le> of_int (2 ^ 53)"
    by (simp add: pow2_nat field_simps)
  then have "round_even (a / pow2 (k - 52)) \<le> 2 ^ 53" by (rule round_even_le)
  then have "(of_int (round_even (a / pow2 (k - 52))) :: rat) \<le> of_int (2 ^ 53)"
    by (simp only: of_int_le_iff)
  then have "round_pos a \<le> of_int (2 ^ 53) * pow2 (k - 52)"
    by (simp add: r)
  also have "\<dots> = pow2 (k + 1)" by (simp add: split pow2_nat)
  also have "\<dots> < pow2 1024" using assms(5) by (intro pow2_strict_mono) simp
  finally show ?thesis using assms(1) r by (simp add: round64_pos)
qed

lemma is_double_1: "is_double 1"
  using round64_int [of 1] by (simp add: is_double_def)

lemma is_double_100: "is_double 100"
  using round64_int [of 100] by (simp add: is_double_def)

lemma round64_cases:
  "round64 q = PInf \<or> round64 q = NInf \<or> (\<exists>v. round64 q = Fin v)"
  by (simp add: round64_def)

subsection \<open>The clamped offset\<close>

lemma clamp_low:
  assumes "0 < w" and "d \<le> 0"
  shows "js_max (Fin 0) (js_min (round64 d) (Fin w)) = Fin 0"
proof (cases "d = 0")
  case True
  with assms(1) show ?thesis by simp
next
  case False
  with assms(2) have "d < 0" by simp
  from round64_neg [OF this] assms(1) show ?thesis by auto
qed

lemma clamp_high:
  assumes "is_double w" and "0 < w" and "w \<le> d"
  shows "js_max (Fin 0) (js_min (round64 d) (Fin w)) = Fin w"
  using round64_ge_double [OF assms] assms(2) by auto


lemma clamp_range:
  assumes "0 < w"
  shows "\<exists>x. js_max (Fin 0) (js_min (round64 d) (Fin w)) = Fin x \<and> 0 \<le> x \<and> x \<le> w"
proof (cases "d \<le> 0")
  case True
  with assms show ?thesis by (simp add: clamp_low)
next
  case False
  then have "0 < d" by simp
  with assms show ?thesis by (simp add: round64_pos)
qed

lemma clamp_negative_width:
  assumes "w < 0"
  shows "js_max (Fin 0) (js_min (round64 d) (Fin w)) = Fin 0"
  using round64_cases [of d] assms by auto

subsection \<open>The percentage\<close>

lemma abs_diff_triangle: "\<bar>a - c\<bar> \<le> \<bar>a - b\<bar> + \<bar>b - c\<bar>" for a b c :: rat
  by linarith

lemma percentage_rounded:
  assumes "0 < w" and "0 \<le> x" and "x \<le> w"
  shows "\<exists>p. js_mul (js_div (Fin x) (Fin w)) (Fin 100) = Fin p \<and> 0 \<le> p \<and> p \<le> 100
           \<and> \<bar>p - x / w * 100\<bar> \<le> 164 / 2 ^ 53"
proof (cases "x = 0")
  case True
  with assms(1) show ?thesis by simp
next
  case False
  define q where "q = x / w"
  define r where "r = round_pos q"
  have q: "0 < q" "q \<le> 1" using assms False by (simp_all add: q_def)
  from round64_le_double [OF is_double_1 q]
  have rq: "round64 q = Fin r" and r: "0 \<le> r" "r \<le> 1" by (simp_all add: r_def)
  have "q < pow2 (0 + 1)" using q(2) by simp
  from round_pos_error_below [OF q(1) this] have "\<bar>r - q\<bar> \<le> pow2 (- 52) / 2"
    by (simp add: r_def)
  then have er: "\<bar>r - q\<bar> \<le> 1 / 2 ^ 53" by (simp add: pow2_def)
  have dv: "js_div (Fin x) (Fin w) = Fin r"
    using assms(1) rq by (simp add: q_def)
  show ?thesis
  proof (cases "r = 0")
    case True
    with er q(1) have "q \<le> 1 / 2 ^ 53" by (simp add: abs_if split: if_splits)
    with q(1) have "\<bar>0 - q * 100\<bar> \<le> 164 / 2 ^ 53" by (simp add: abs_if)
    with dv True show ?thesis
      by (intro exI [of _ 0]) (simp add: q_def)
  next
    case False
    define p where "p = round_pos (r * 100)"
    have r100: "0 < r * 100" "r * 100 \<le> 100" using r False by simp_all
    from round64_le_double [OF is_double_100 r100]
    have rp: "round64 (r * 100) = Fin p" and p: "0 \<le> p" "p \<le> 100" by (simp_all add: p_def)
    have "r * 100 < pow2 (6 + 1)" using r100(2) by (simp add: pow2_def)
    from round_pos_error_below [OF r100(1) this] have "\<bar>p - r * 100\<bar> \<le> pow2 (- 46) / 2"
      by (simp add: p_def)
    then have ep: "\<bar>p - r * 100\<bar> \<le> 64 / 2 ^ 53" by (simp add: pow2_def)
    have "\<bar>r * 100 - q * 100\<bar> = \<bar>r - q\<bar> * 100"
      using abs_mult [of "r - q" 100] by (simp add: left_diff_distrib)
    with abs_diff_triangle [of p "r * 100" "q * 100"]
    have "\<bar>p - q * 100\<bar> \<le> \<bar>p - r * 100\<bar> + \<bar>r - q\<bar> * 100" by simp
    with ep er have "\<bar>p - q * 100\<bar> \<le> 164 / 2 ^ 53" by simp
    with dv rp p show ?thesis
      by (intro exI [of _ p]) (simp add: q_def)
  qed
qed

lemma handleMove_low:
  assumes "0 < w" and "cx - l \<le> 0"
  shows "handleMove (Some \<lparr>left = Fin l, width = Fin w\<rparr>) (Fin cx) s
         = s\<lparr>sliderPosition := Fin 0\<rparr>"
  using assms by (simp add: handleMove_def Let_def clamp_low)

lemma handleMove_high:
  assumes "0 < w" and "is_double w" and "w \<le> cx - l"
  shows "handleMove (Some \<lparr>left = Fin l, width = Fin w\<rparr>) (Fin cx) s
         = s\<lparr>sliderPosition := Fin 100\<rparr>"
proof -
  have "round64 1 = Fin 1" and "round64 100 = Fin 100"
    using is_double_1 is_double_100 by (simp_all add: is_double_def)
  with assms show ?thesis
    by (simp add: handleMove_def Let_def clamp_high)
qed


lemma handleMove_in_range:
  assumes "w \<noteq> 0"
  shows "in_range (sliderPosition (handleMove (Some \<lparr>left = Fin l, width = Fin w\<rparr>) (Fin cx) s))"
proof (cases "0 < w")
  case True
  from clamp_range [OF True, of "cx - l"] obtain x
    where cl: "js_max (Fin 0) (js_min (round64 (cx - l)) (Fin w)) = Fin x"
      and x: "0 \<le> x" "x \<le> w"
    by blast
  from percentage_rounded [OF True x] obtain p
    where "js_mul (js_div (Fin x) (Fin w)) (Fin 100) = Fin p" and "0 \<le> p" and "p \<le> 100"
    by blast
  with cl show ?thesis by (simp add: handleMove_def Let_def)
next
  case False
  with assms have "w < 0" by simp
  then show ?thesis
    by (simp add: handleMove_def Let_def clamp_negative_width)
qed

subsection \<open>Two computations carried out\<close>

lemma handleMove_quarter:
  "handleMove (Some \<lparr>left = Fin 20, width = Fin 400\<rparr>) (Fin 120) s
     = s\<lparr>sliderPosition := Fin 25\<rparr>"
proof -
  have a: "round64 100 = Fin 100" and c: "round64 25 = Fin 25"
    using round64_int [of 100] round64_int [of 25] by simp_all
  have b: "round64 (1 / 4) = Fin (1 / 4)"
    by (rule round64_exact [where m = 1 and e = "- 2"]) (simp_all add: pow2_def)
  show ?thesis
    by (simp add: handleMove_def Let_def a b c)
qed

lemma handleMove_rounds:
  "handleMove (Some \<lparr>left = Fin 0, width = Fin 25\<rparr>) (Fin 7) s
     = s\<lparr>sliderPosition := Fin (28 + 1 / 2 ^ 48)\<rparr>"
proof -
  have a: "round64 7 = Fin 7"
    using round64_int [of 7] by simp
  have "round_even (7 / 25 / pow2 (- 2 - 52)) = 5044031582654956"
    by (rule round_even_nearest) (simp add: pow2_def)
  then have b: "round64 (7 / 25) = Fin (1261007895663739 / 4503599627370496)"
    using round64_normal [of "7 / 25" "- 2"] by (simp add: pow2_def)
  have "round_even (1261007895663739 / 4503599627370496 * 100 / pow2 (4 - 52))
      = 7881299347898369"
    by (rule round_even_nearest) (simp add: pow2_def)
  then have c: "round64 (1261007895663739 / 4503599627370496 * 100) = Fin (28 + 1 / 2 ^ 48)"
    using round64_normal [of "1261007895663739 / 4503599627370496 * 100" 4]
    by (simp add: pow2_def)
  show ?thesis
    using a b c by (simp add: handleMove_def Let_def)
qed

lemma is_double_rounded_position: "is_double (28 + 1 / 2 ^ 48)"
  unfolding is_double_def
  by (rule round64_exact [where m = 7881299347898369 and e = "- 48"]) (simp_all add: pow2_def)

lemma inset_rounds: "js_sub (Fin 100) (Fin (28 + 1 / 2 ^ 48)) = Fin 72"
proof -
  have "round_even ((100 - (28 + 1 / 2 ^ 48)) / pow2 (6 - 52)) = 5066549580791808"
    by (rule round_even_nearest) (simp add: pow2_def)
  then have "round64 (100 - (28 + 1 / 2 ^ 48)) = Fin 72"
    using round64_normal [of "100 - (28 + 1 / 2 ^ 48)" 6] by (simp add: pow2_def)
  then show ?thesis by simp
qed

lemma handleMove_keeps_range:
  assumes "in_range (sliderPosition s)" and "finite_geometry c"
  shows "in_range (sliderPosition (handleMove c (Fin x) s))"
proof (cases c)
  case None
  with assms(1) show ?thesis by (simp add: handleMove_def)
next
  case (Some r)
  with assms(2) obtain l w where "left r = Fin l" and "width r = Fin w" and "w \<noteq> 0"
    by (auto split: jsnum.splits)
  then have "r = \<lparr>left = Fin l, width = Fin w\<rparr>" by (cases r) simp
  with Some \<open>w \<noteq> 0\<close> show ?thesis by (simp add: handleMove_in_range)
qed

lemma step_keeps_range:
  assumes "in_range (sliderPosition s)" and "finite_geometry c" and "finite_event e"
    and "step c e s = Inr s'"
  shows "in_range (sliderPosition s')"
proof (cases e)
  case (MouseMove x)
  with assms(3) obtain q where "x = Fin q" by (cases x) simp_all
  with MouseMove assms(1,2,4) show ?thesis
    by (auto simp: step_def useEffect_def handleMouseMove_def handleMove_keeps_range
        split: if_splits)
next
  case (TouchMove ts)
  show ?thesis
  proof (cases ts)
    case Nil
    with TouchMove assms(1,4) show ?thesis
      by (auto simp: step_def useEffect_def handleTouchMove_def split: if_splits)
  next
    case (Cons x xs)
    with TouchMove assms(3) obtain q where "x = Fin q" by (cases x) simp_all
    with Cons TouchMove assms(1,2,4) show ?thesis
      by (auto simp: step_def useEffect_def handleTouchMove_def handleMove_keeps_range
          split: if_splits)
  qed
next
  case (Click x)
  with assms(3) obtain q where "x = Fin q" by (cases x) simp_all
  with Click assms(1,2,4) show ?thesis
    by (auto simp: step_def useEffect_def handleClick_def handleMove_keeps_range)
qed (use assms(1,4) in \<open>auto simp: step_def useEffect_def onMouseDown_def onTouchStart_def
      handleMouseUp_def split: if_splits\<close>)

lemma run_keeps_range:
  assumes "in_range (sliderPosition s)"
    and "list_all (\<lambda>(c, e). finite_geometry c \<and> finite_event e) es"
  shows "in_range (sliderPosition (run es s))"
  using assms
proof (induction es arbitrary: s)
  case Nil
  then show ?case by simp
next
  case (Cons ce es)
  obtain c e where ce: "ce = (c, e)" by (cases ce)
  with Cons.prems have ok: "finite_geometry c" "finite_event e"
    and rest: "list_all (\<lambda>(c, e). finite_geometry c \<and> finite_event e) es"
    by simp_all
  show ?case
  proof (cases "step c e s")
    case (Inl err)
    with Cons.IH [OF Cons.prems(1) rest] ce show ?thesis by simp
  next
    case (Inr s')
    from step_keeps_range [OF Cons.prems(1) ok Inr] have "in_range (sliderPosition s')" .
    from Cons.IH [OF this rest] Inr ce show ?thesis by simp
  qed
qed

subsection \<open>The position computed from a coordinate\<close>




text \<open>
  C4: with a container of positive width, a coordinate at or left of the left edge
  stores exactly 0 and a coordinate at or right of the right edge stores exactly 100;
  a click at such a coordinate is handled, not rejected. The width is a JavaScript
  number, that is a double.
\<close>

theorem out_of_bounds_clamped:
  assumes "0 < w" and "is_double w"
  shows "(clientX - l \<le> 0 \<longrightarrow>
            handleMove (Some \<lparr>left = Fin l, width = Fin w\<rparr>) (Fin clientX) s
              = s\<lparr>sliderPosition := Fin 0\<rparr>)
       \<and> (w \<le> clientX - l \<longrightarrow>
            handleMove (Some \<lparr>left = Fin l, width = Fin w\<rparr>) (Fin clientX) s
              = s\<lparr>sliderPosition := Fin 100\<rparr>)
       \<and> \<not> isl (step (Some \<lparr>left = Fin l, width = Fin w\<rparr>) (Click (Fin clientX)) s)"
  using assms
  by (simp add: handleMove_low handleMove_high step_def)

text \<open>
  C4 at width 400 and left edge 20: the pointer at -7 stores 0, the pointer at 1000
  stores 100.
\<close>

theorem out_of_bounds_clamped_witness:
  "handleMove (Some \<lparr>left = Fin 20, width = Fin 400\<rparr>) (Fin (- 7)) initial
     = initial\<lparr>sliderPosition := Fin 0\<rparr>
   \<and> handleMove (Some \<lparr>left = Fin 20, width = Fin 400\<rparr>) (Fin 1000) initial
     = initial\<lparr>sliderPosition := Fin 100\<rparr>"
proof -
  have d: "is_double 400"
    using round64_int [of 400] by (simp add: is_double_def)
  have w: "(0::rat) < 400" by simp
  show ?thesis
    using out_of_bounds_clamped [OF w d, of "- 7" 20 initial]
      out_of_bounds_clamped [OF w d, of 1000 20 initial]
    by simp
qed

text \<open>
  C9: handling the same coordinate twice gives the state that handling it once gives,
  for \<open>handleMove\<close> itself and for a mouse move, a touch move and a click after any
  history of events; with a mounted container the stored position does not depend on
  the state before.
\<close>

theorem handleMove_idempotent:
  "handleMove c clientX (handleMove c clientX s) = handleMove c clientX s
   \<and> sliderPosition (handleMove (Some r) clientX s) = sliderPosition (handleMove (Some r) clientX s')
   \<and> run (evs @ [(c, MouseMove clientX), (c, MouseMove clientX)]) initial
       = run (evs @ [(c, MouseMove clientX)]) initial
   \<and> run (evs @ [(c, TouchMove ts), (c, TouchMove ts)]) initial
       = run (evs @ [(c, TouchMove ts)]) initial
   \<and> run (evs @ [(c, Click clientX), (c, Click clientX)]) initial
       = run (evs @ [(c, Click clientX)]) initial"
proof -
  have sync: "listening (run evs initial) = isDragging (run evs initial)"
    by (rule run_initial_sync)
  have idem: "handleMove c y (handleMove c y t) = handleMove c y t" for y t
    by (simp add: handleMove_def Let_def split: option.splits)
  have indep: "sliderPosition (handleMove (Some r) clientX s)
      = sliderPosition (handleMove (Some r) clientX s')"
    by (simp add: handleMove_def Let_def)
  have mm: "run [(c, MouseMove clientX), (c, MouseMove clientX)] t = run [(c, MouseMove clientX)] t"
    if "listening t = isDragging t" for t
    using that
    by (cases c) (simp_all add: step_def useEffect_def handleMouseMove_def handleMove_def Let_def)
  have tm: "run [(c, TouchMove ts), (c, TouchMove ts)] t = run [(c, TouchMove ts)] t"
    if "listening t = isDragging t" for t
    using that
    by (cases ts; cases c)
      (simp_all add: step_def useEffect_def handleTouchMove_def handleMove_def Let_def)
  have ck: "run [(c, Click clientX), (c, Click clientX)] t = run [(c, Click clientX)] t"
    if "listening t = isDragging t" for t
    using that
    by (cases c) (simp_all add: step_def useEffect_def handleClick_def handleMove_def Let_def)
  from idem indep mm [OF sync] tm [OF sync] ck [OF sync] show ?thesis
    by (simp add: run_append)
qed

subsection \<open>The range of the position\<close>

text \<open>
  C2: the position does not stay between 0 and 100 for a container of any width. A
  drag starts on a container of width 400; the container then has width 0 when the
  mouse moves: the offset is clamped to 0, \<open>0 / 0\<close> is NaN, and NaN is stored.
\<close>

theorem zero_width_drag_position_nan:
  "sliderPosition
     (run [(Some \<lparr>left = Fin 0, width = Fin 400\<rparr>, MouseDown),
           (Some \<lparr>left = Fin 0, width = Fin 0\<rparr>, MouseMove (Fin 10))] initial) = NaN
   \<and> \<not> in_range (sliderPosition
     (run [(Some \<lparr>left = Fin 0, width = Fin 400\<rparr>, MouseDown),
           (Some \<lparr>left = Fin 0, width = Fin 0\<rparr>, MouseMove (Fin 10))] initial))"
proof -
  have "round64 10 = Fin 10"
    using round64_int [of 10] by simp
  then show ?thesis
    by (simp add: initial_def step_def useEffect_def onMouseDown_def handleMouseMove_def
        handleMove_def Let_def)
qed

text \<open>
  C3: an event on a mounted container of width 0 is not ignored. A click at 10 on a
  container whose bounding box has width 0 replaces the initial position 50 by NaN.
\<close>

theorem zero_width_click_not_ignored:
  "step (Some \<lparr>left = Fin 0, width = Fin 0\<rparr>) (Click (Fin 10)) initial
     = Inr (initial\<lparr>sliderPosition := NaN\<rparr>)
   \<and> sliderPosition initial = Fin 50"
proof -
  have "round64 10 = Fin 10"
    using round64_int [of 10] by simp
  then show ?thesis
    by (simp add: initial_def step_def useEffect_def handleClick_def handleMove_def Let_def)
qed

subsection \<open>Dragging\<close>

text \<open>
  C5 as stated fails for a touch cancellation: no handler is registered for it, so
  after a touch start and a touch cancel the component is still dragging.
\<close>

theorem touch_cancel_keeps_dragging:
  "isDragging (run [(Some \<lparr>left = Fin 0, width = Fin 400\<rparr>, TouchStart)] initial)
   \<and> isDragging (run [(Some \<lparr>left = Fin 0, width = Fin 400\<rparr>, TouchStart),
                      (Some \<lparr>left = Fin 0, width = Fin 400\<rparr>, TouchCancel)] initial)"
  by (simp add: initial_def step_def useEffect_def onTouchStart_def)

text \<open>
  C5, amended: after any history of events that leaves the component dragging, a
  mouse-up or a touch-end on the document makes it idle.
\<close>

theorem release_ends_drag:
  assumes "isDragging (run evs initial)" and "e = MouseUp \<or> e = TouchEnd"
  shows "\<not> isDragging (run (evs @ [(c, e)]) initial)"
proof -
  have "listening (run evs initial)"
    using assms(1) run_initial_sync [of evs] by simp
  with assms have "step c e (run evs initial)
      = Inr ((run evs initial)\<lparr>isDragging := False, listening := False\<rparr>)"
    by (simp add: release_step)
  then show ?thesis by (simp add: run_append)
qed

text \<open>
  C5, amended, for a mouse press followed by a mouse-up and for a touch start followed
  by a touch-end.
\<close>

theorem release_ends_drag_witness:
  "isDragging (run [(None, MouseDown)] initial)
   \<and> \<not> isDragging (run ([(None, MouseDown)] @ [(None, MouseUp)]) initial)
   \<and> isDragging (run [(None, TouchStart)] initial)
   \<and> \<not> isDragging (run ([(None, TouchStart)] @ [(None, TouchEnd)]) initial)"
proof -
  have a: "isDragging (run [(None, MouseDown)] initial)"
    by (simp add: initial_def step_def useEffect_def onMouseDown_def)
  have b: "isDragging (run [(None, TouchStart)] initial)"
    by (simp add: initial_def step_def useEffect_def onTouchStart_def)
  show ?thesis
    using a b release_ends_drag [OF a, of MouseUp None] release_ends_drag [OF b, of TouchEnd None]
    by simp
qed

text \<open>
  C6: once a drag has been released by a mouse-up or a touch-end, mouse moves and touch
  moves, however many and whatever the geometry, leave the position at the value it had
  at the release, and the component stays idle.
\<close>

theorem position_frozen_after_release:
  assumes "isDragging (run evs initial)" and "r = MouseUp \<or> r = TouchEnd"
    and "list_all is_move (map snd ms)"
  shows "sliderPosition (run (evs @ (c, r) # ms) initial) = sliderPosition (run evs initial)
       \<and> \<not> isDragging (run (evs @ (c, r) # ms) initial)"
proof -
  let ?s = "run evs initial"
  let ?idle = "?s\<lparr>isDragging := False, listening := False\<rparr>"
  have "listening ?s"
    using assms(1) run_initial_sync [of evs] by simp
  with assms(1,2) have st: "step c r ?s = Inr ?idle"
    by (simp add: release_step)
  have "\<not> isDragging ?idle" by simp
  from idle_moves [OF this assms(3)] st show ?thesis
    by (simp add: run_append)
qed

text \<open>
  C6 for a drag to position 25 that is released and followed by a mouse move to 300 and
  a touch move to 7.
\<close>

theorem position_frozen_after_release_witness:
  "sliderPosition (run ([(Some \<lparr>left = Fin 20, width = Fin 400\<rparr>, MouseDown),
                         (Some \<lparr>left = Fin 20, width = Fin 400\<rparr>, MouseMove (Fin 120))]
                        @ (Some \<lparr>left = Fin 20, width = Fin 400\<rparr>, MouseUp)
                        # [(Some \<lparr>left = Fin 20, width = Fin 400\<rparr>, MouseMove (Fin 300)),
                           (Some \<lparr>left = Fin 20, width = Fin 400\<rparr>, TouchMove [Fin 7])]) initial)
     = Fin 25"
proof -
  let ?c = "Some \<lparr>left = Fin 20, width = Fin 400\<rparr>"
  let ?evs = "[(?c, MouseDown), (?c, MouseMove (Fin 120))]"
  have run: "run ?evs initial = \<lparr>sliderPosition = Fin 25, isDragging = True, listening = True\<rparr>"
    by (simp add: initial_def step_def useEffect_def onMouseDown_def handleMouseMove_def
        handleMove_quarter)
  then have a: "isDragging (run ?evs initial)" by simp
  have b: "MouseUp = MouseUp \<or> MouseUp = TouchEnd" by simp
  have c: "list_all is_move (map snd [(?c, MouseMove (Fin 300)), (?c, TouchMove [Fin 7])])"
    by simp
  from position_frozen_after_release [OF a b c, of ?c] run show ?thesis by simp
qed



subsection \<open>Rendering and the initial state\<close>

text \<open>
  C8 as stated fails: the inset is the double that the subtraction \<open>100 - p\<close> rounds
  to. After a click at 7 on a container of width 25 the position is
  \<open>28 + 1 / 2 ^ 48\<close> and the overlay is clipped by \<open>inset(0 72% 0 0)\<close>, while
  \<open>100 - p\<close> is \<open>72 - 1 / 2 ^ 48\<close>.
\<close>

theorem rendered_inset_not_exact:
  "sliderPosition (run [(Some \<lparr>left = Fin 0, width = Fin 25\<rparr>, Click (Fin 7))] initial)
     = Fin (28 + 1 / 2 ^ 48)
   \<and> clipPath (render (run [(Some \<lparr>left = Fin 0, width = Fin 25\<rparr>, Click (Fin 7))] initial))
     = [Str ''inset(0 '', Num (Fin 72), Str ''% 0 0)'']
   \<and> (100::rat) - (28 + 1 / 2 ^ 48) \<noteq> 72"
proof -
  have "run [(Some \<lparr>left = Fin 0, width = Fin 25\<rparr>, Click (Fin 7))] initial
      = initial\<lparr>sliderPosition := Fin (28 + 1 / 2 ^ 48)\<rparr>"
    by (simp add: step_def useEffect_def handleClick_def handleMove_rounds initial_def)
  then show ?thesis
    using inset_rounds by (simp add: render_def)
qed

text \<open>
  C8, amended: for every stored position \<open>p\<close> the overlay is clipped by
  \<open>inset(0 X% 0 0)\<close>, whose second argument is the inset from the right edge, where
  \<open>X\<close> is the double that JavaScript computes for \<open>100 - p\<close>, and the handle has
  \<open>left: p%\<close>. For a position between 0 and 100, \<open>X\<close> is within \<open>1 / 2 ^ 47\<close>
  of \<open>100 - p\<close>.
\<close>

theorem render_clip_and_handle:
  "clipPath (render s)
     = [Str ''inset(0 '', Num (js_sub (Fin 100) (sliderPosition s)), Str ''% 0 0)'']
   \<and> handleLeft (render s) = [Num (sliderPosition s), Str ''%'']
   \<and> (sliderPosition s = Fin p \<and> 0 \<le> p \<and> p \<le> 100 \<longrightarrow>
        close_to (1 / 2 ^ 47) (js_sub (Fin 100) (sliderPosition s)) (100 - p))"
proof -
  have "close_to (1 / 2 ^ 47) (round64 (100 - p)) (100 - p)" if "0 \<le> p" and "p \<le> 100"
  proof (cases "p = 100")
    case True
    then show ?thesis by simp
  next
    case False
    with that have q: "0 < 100 - p" "100 - p \<le> 100" by simp_all
    from round64_le_double [OF is_double_100 q]
    have r: "round64 (100 - p) = Fin (round_pos (100 - p))" by simp
    have "100 - p < pow2 (6 + 1)" using q(2) by (simp add: pow2_def)
    from round_pos_error_below [OF q(1) this]
    have "\<bar>round_pos (100 - p) - (100 - p)\<bar> \<le> pow2 (- 46) / 2" by simp
    then have "\<bar>round_pos (100 - p) - (100 - p)\<bar> \<le> 1 / 2 ^ 47" by (simp add: pow2_def)
    with r show ?thesis by simp
  qed
  then show ?thesis by (auto simp: render_def)
qed

text \<open>
  C8, amended, at the position \<open>28 + 1 / 2 ^ 48\<close>: the inset is 72, within
  \<open>1 / 2 ^ 47\<close> of \<open>72 - 1 / 2 ^ 48\<close>.
\<close>

theorem render_clip_and_handle_witness:
  "clipPath (render \<lparr>sliderPosition = Fin (28 + 1 / 2 ^ 48), isDragging = False, listening = False\<rparr>)
     = [Str ''inset(0 '', Num (Fin 72), Str ''% 0 0)'']
   \<and> handleLeft (render \<lparr>sliderPosition = Fin (28 + 1 / 2 ^ 48), isDragging = False, listening = False\<rparr>)
     = [Num (Fin (28 + 1 / 2 ^ 48)), Str ''%'']
   \<and> close_to (1 / 2 ^ 47) (Fin 72) (100 - (28 + 1 / 2 ^ 48))"
  using render_clip_and_handle [of
      "\<lparr>sliderPosition = Fin (28 + 1 / 2 ^ 48), isDragging = False, listening = False\<rparr>"
      "28 + 1 / 2 ^ 48"] inset_rounds
  by simp

text \<open>
  C10: before any event is handled the slider position is 50 and the component is idle
  (not dragging).
\<close>

theorem initial_state_midpoint_idle:
  "sliderPosition initial = Fin 50 \<and> isDragging initial = False"
  by (simp add: initial_def)

end
